theory Spec2Isabelle
  imports Main "HOL-Library.FSet"
begin

section \<open>Python string primitives used by the column sanitizer\<close>

text \<open>
  A Python \<open>str\<close> is a sequence of code points. It is modelled as a \<open>string\<close>
  (a \<open>char list\<close>), each \<open>char\<close> standing for the code point of the same number
  (0 to 255, the Latin-1 range). The character tests and the case mapping below are Python's
  own on that range: \<open>str.strip()\<close> removes the characters for which \<open>str.isspace\<close>
  holds, \<open>str.lower()\<close> maps A-Z and the accented capitals of Latin-1 to their small
  letters, and \<open>str.isdigit\<close> also accepts the superscript digits.
\<close>

definition py_isspace :: "char \<Rightarrow> bool" where
  "py_isspace c =
     (let n = (of_char c :: nat)
      in (9 \<le> n \<and> n \<le> 13) \<or> (28 \<le> n \<and> n \<le> 32) \<or> n = 133 \<or> n = 160)"

definition py_isdigit :: "char \<Rightarrow> bool" where
  "py_isdigit c =
     (let n = (of_char c :: nat)
      in (48 \<le> n \<and> n \<le> 57) \<or> n = 178 \<or> n = 179 \<or> n = 185)"

definition lower_char :: "char \<Rightarrow> char" where
  "lower_char c =
     (let n = (of_char c :: nat)
      in if (65 \<le> n \<and> n \<le> 90) \<or> (192 \<le> n \<and> n \<le> 222 \<and> n \<noteq> 215)
         then char_of (n + 32) else c)"

definition py_lower :: "string \<Rightarrow> string" where
  "py_lower s = map lower_char s"

text \<open>
  \<open>s.strip()\<close> and \<open>s.strip('_')\<close>: drop the leading and the trailing characters
  that belong to the stripped class.
\<close>

definition strip_where :: "(char \<Rightarrow> bool) \<Rightarrow> string \<Rightarrow> string" where
  "strip_where P s = rev (dropWhile P (rev (dropWhile P s)))"

definition py_strip :: "string \<Rightarrow> string" where
  "py_strip s = strip_where py_isspace s"

definition is_underscore :: "char \<Rightarrow> bool" where
  "is_underscore c = (c = CHR ''_'')"

definition strip_underscore :: "string \<Rightarrow> string" where
  "strip_underscore s = strip_where is_underscore s"

text \<open>
  \<open>re.sub(r'X+', repl, s)\<close> for a character class \<open>X\<close>: scanning from the left, a
  character of the class starts a match that greedily takes every following character of
  the class, and the match is replaced by \<open>repl\<close>; any other character is copied.
\<close>

function re_sub_plus :: "(char \<Rightarrow> bool) \<Rightarrow> string \<Rightarrow> string \<Rightarrow> string" where
  "re_sub_plus X repl [] = []"
| "re_sub_plus X repl (c # cs) =
     (if X c then repl @ re_sub_plus X repl (dropWhile X cs)
      else c # re_sub_plus X repl cs)"
  by pat_completeness auto
termination
  by (relation "measure (\<lambda>(X, repl, s). length s)")
     (auto simp: le_imp_less_Suc length_dropWhile_le)

text \<open>The class \<open>[0-9a-z_]\<close> and its complement \<open>[^0-9a-z_]\<close>.\<close>

definition in_class :: "char \<Rightarrow> bool" where
  "in_class c =
     (let n = (of_char c :: nat)
      in (48 \<le> n \<and> n \<le> 57) \<or> (97 \<le> n \<and> n \<le> 122) \<or> n = 95)"

definition not_in_class :: "char \<Rightarrow> bool" where
  "not_in_class c = (\<not> in_class c)"

text \<open>
  \<open>str(i)\<close> inside the f-string \<open>f'{base}_{i}'\<close>: the decimal digits of the counter,
  which starts at 1 and is only ever incremented, so it is a natural number.
\<close>

definition digit_char :: "nat \<Rightarrow> char" where
  "digit_char d = char_of (48 + d)"

fun str_nat :: "nat \<Rightarrow> string" where
  "str_nat n =
     (if n < 10 then [digit_char n] else str_nat (n div 10) @ [digit_char (n mod 10)])"

definition suffixed :: "string \<Rightarrow> nat \<Rightarrow> string" where
  "suffixed base i = base @ ''_'' @ str_nat i"

section \<open>The column sanitizer\<close>

text \<open>
  Lines 21 to 25 of the source: the identifier proposed for one label, before the
  uniqueness loop.
\<close>

definition candidate :: "string \<Rightarrow> string" where
  "candidate c =
     (let s = py_lower (py_strip c);
          s = re_sub_plus not_in_class ''_'' s;
          s = strip_underscore (re_sub_plus is_underscore ''_'' s)
      in if (case s of [] \<Rightarrow> True | x # _ \<Rightarrow> py_isdigit x) then ''c_'' @ s else s)"

text \<open>
  Reading a decimal numeral back shows that \<open>str\<close> maps different counters to
  different strings.
\<close>

definition nat_of_str :: "string \<Rightarrow> nat" where
  "nat_of_str s = foldl (\<lambda>a c. 10 * a + (of_char c - 48)) 0 s"

lemma nat_of_str_nat: "nat_of_str (str_nat n) = n"
proof (induction n rule: str_nat.induct)
  case (1 n)
  show ?case
  proof (cases "n < 10")
    case True
    then show ?thesis by (simp add: nat_of_str_def digit_char_def)
  next
    case False
    with 1 have "nat_of_str (str_nat (n div 10)) = n div 10" by simp
    moreover have "(of_char (digit_char (n mod 10)) :: nat) = 48 + n mod 10"
      by (simp add: digit_char_def)
    ultimately show ?thesis using False
      by (subst str_nat.simps) (simp add: nat_of_str_def del: str_nat.simps)
  qed
qed

lemma str_nat_inj: "str_nat m = str_nat n \<Longrightarrow> m = n"
  by (metis nat_of_str_nat)

lemma suffixed_inj: "suffixed b m = suffixed b n \<Longrightarrow> m = n"
  by (simp add: suffixed_def str_nat_inj)

text \<open>
  Lines 26 to 29: the uniqueness loop, with the loop variables \<open>i\<close> and \<open>s\<close> as
  arguments. It stops since the names \<open>base_2, base_3, ...\<close> are pairwise different and
  the used-set is finite.
\<close>

function while_used :: "string fset \<Rightarrow> string \<Rightarrow> nat \<Rightarrow> string \<Rightarrow> string" where
  "while_used used base i s =
     (if s |\<in>| used then while_used used base (i + 1) (suffixed base (i + 1)) else s)"
  by pat_completeness auto
termination
proof (relation "measures [\<lambda>(used, base, i, s). card {j. i < j \<and> suffixed base j |\<in>| used},
                           \<lambda>(used, base, i, s). if s |\<in>| used then 1 else 0]")
  show "wf (measures [\<lambda>(used, base, i, s). card {j. i < j \<and> suffixed base j |\<in>| used},
                           \<lambda>(used, base, i, s). if s |\<in>| used then 1 else 0])" by simp
next
  fix used :: "string fset" and base :: string and i :: nat and s :: string
  assume "s |\<in>| used"
  have fin: "finite {j. suffixed base j |\<in>| used}"
  proof -
    have "{j. suffixed base j |\<in>| used} = suffixed base -` fset used" by auto
    moreover have "inj (suffixed base)" by (auto simp: inj_on_def dest: suffixed_inj)
    ultimately show ?thesis by (simp add: finite_vimageI)
  qed
  let ?A = "\<lambda>i. {j. i < j \<and> suffixed base j |\<in>| used}"
  have finA: "finite (?A i)" using fin by (rule rev_finite_subset) auto
  show "((used, base, i + 1, suffixed base (i + 1)), (used, base, i, s))
       \<in> measures [\<lambda>(used, base, i, s). card {j. i < j \<and> suffixed base j |\<in>| used},
                           \<lambda>(used, base, i, s). if s |\<in>| used then 1 else 0]"
  proof (cases "suffixed base (i + 1) |\<in>| used")
    case True
    have "?A (i + 1) \<subset> ?A i" using True by auto
    then have "card (?A (i + 1)) < card (?A i)" using finA by (rule psubset_card_mono[rotated])
    then show ?thesis by simp
  next
    case False
    have "?A (i + 1) = ?A i"
      using False by (auto simp: Suc_lessI) (metis Suc_lessI)
    then show ?thesis using False \<open>s |\<in>| used\<close> by simp
  qed
qed

declare while_used.simps [simp del]

text \<open>
  One iteration of the \<open>for\<close> loop over the state \<open>(new, used)\<close>, and the whole
  function, which starts from the empty list and the empty set.
\<close>

definition sanitize_step :: "string list \<times> string fset \<Rightarrow> string \<Rightarrow> string list \<times> string fset" where
  "sanitize_step st c =
     (let (new, used) = st;
          s = candidate c;
          base = s;
          s = while_used used base 1 s
      in (new @ [s], finsert s used))"

definition sanitize_columns :: "string list \<Rightarrow> string list" where
  "sanitize_columns cols = fst (foldl sanitize_step ([], {||}) cols)"

section \<open>Predicates on identifiers\<close>

text \<open>
  A normalized identifier is non-empty, made of small ASCII letters, digits and the
  underscore only, and does not start with a digit. \<open>matches_identifier\<close> is the
  regular expression \<open>^[a-z][a-z0-9_]*$\<close>.
\<close>

definition ascii_digit :: "char \<Rightarrow> bool" where
  "ascii_digit c = (let n = (of_char c :: nat) in 48 \<le> n \<and> n \<le> 57)"

definition valid_identifier :: "string \<Rightarrow> bool" where
  "valid_identifier s =
     (case s of [] \<Rightarrow> False | c # cs \<Rightarrow> \<not> ascii_digit c \<and> list_all in_class (c # cs))"

definition ascii_lower :: "char \<Rightarrow> bool" where
  "ascii_lower c = (let n = (of_char c :: nat) in 97 \<le> n \<and> n \<le> 122)"

definition matches_identifier :: "string \<Rightarrow> bool" where
  "matches_identifier s =
     (case s of [] \<Rightarrow> False | c # cs \<Rightarrow> ascii_lower c \<and> list_all in_class cs)"

definition starts_with_c :: "string \<Rightarrow> bool" where
  "starts_with_c s = (take 2 s = ''c_'')"

section \<open>The candidate as the specification words it\<close>

text \<open>
  A second definition of the candidate, following the specification's steps 1 to 4 rather
  than the source: the allowed characters and the digits are listed, a string is cut into
  its maximal runs of characters inside and outside a class and each run inside the class
  is replaced by one underscore, and trimming takes the trailing characters first.
\<close>

definition spec_allowed :: "char \<Rightarrow> bool" where
  "spec_allowed c = (c \<in> set ''abcdefghijklmnopqrstuvwxyz0123456789_'')"

definition spec_digit :: "char \<Rightarrow> bool" where
  "spec_digit c = (c \<in> set ''0123456789'')"

fun maximal_runs :: "(char \<Rightarrow> bool) \<Rightarrow> string \<Rightarrow> string list" where
  "maximal_runs X [] = []"
| "maximal_runs X (c # cs) =
     (case maximal_runs X cs of
        [] \<Rightarrow> [[c]]
      | r # rs \<Rightarrow> if X c = X (hd r) then (c # r) # rs else [c] # r # rs)"

definition replace_runs :: "(char \<Rightarrow> bool) \<Rightarrow> string \<Rightarrow> string" where
  "replace_runs X s =
     concat (map (\<lambda>r. if X (hd r) then ''_'' else r) (maximal_runs X s))"

definition spec_trim :: "(char \<Rightarrow> bool) \<Rightarrow> string \<Rightarrow> string" where
  "spec_trim P s = dropWhile P (rev (dropWhile P (rev s)))"

definition spec_candidate :: "string \<Rightarrow> string" where
  "spec_candidate c =
     (let s = py_lower (spec_trim py_isspace c);
          s = replace_runs (\<lambda>c. \<not> spec_allowed c) s;
          s = spec_trim is_underscore (replace_runs is_underscore s)
      in if s = [] \<or> spec_digit (hd s) then ''c_'' @ s else s)"

section \<open>The sanitizer as a relation between an input and the result of a run\<close>

text \<open>
  The same two loops as a big-step relation: \<open>while_used_run used base i s r\<close> says that
  the \<open>while\<close> loop entered with the variables \<open>i\<close> and \<open>s\<close> leaves with
  \<open>s = r\<close>, and \<open>for_run (new, used) cols out\<close> that the \<open>for\<close> loop over
  \<open>cols\<close> entered in the state \<open>(new, used)\<close> returns \<open>out\<close>. A run of the
  function starts from the empty list and the empty set, and reads nothing else.
\<close>

inductive while_used_run :: "string fset \<Rightarrow> string \<Rightarrow> nat \<Rightarrow> string \<Rightarrow> string \<Rightarrow> bool" where
  loop_exit: "s |\<notin>| used \<Longrightarrow> while_used_run used base i s s"
| loop_iter: "s |\<in>| used \<Longrightarrow> while_used_run used base (i + 1) (suffixed base (i + 1)) r \<Longrightarrow>
              while_used_run used base i s r"

inductive for_run :: "string list \<times> string fset \<Rightarrow> string list \<Rightarrow> string list \<Rightarrow> bool" where
  for_done: "for_run (new, used) [] new"
| for_iter: "while_used_run used (candidate c) 1 (candidate c) s \<Longrightarrow>
             for_run (new @ [s], finsert s used) cols out \<Longrightarrow>
             for_run (new, used) (c # cols) out"

definition sanitize_run :: "string list \<Rightarrow> string list \<Rightarrow> bool" where
  "sanitize_run cols out = for_run ([], {||}) cols out"

section \<open>The availability check\<close>

text \<open>
  Lines 57 to 63. \<open>requests.head\<close> is the network: it is a parameter that, for a URL,
  either returns a response or raises. \<open>except Exception\<close> catches what derives from
  \<open>Exception\<close> (every error of the HTTP library does); an interrupt of the process does
  not derive from it and passes through.
\<close>

datatype py_exception =
  ConnectionError | Timeout | TooManyRedirects | OtherException string
  | KeyboardInterrupt | SystemExit

fun is_Exception :: "py_exception \<Rightarrow> bool" where
  "is_Exception KeyboardInterrupt = False"
| "is_Exception SystemExit = False"
| "is_Exception _ = True"

record response =
  status_code :: int

definition check_file_exists ::
    "(string \<Rightarrow> py_exception + response) \<Rightarrow> string \<Rightarrow> py_exception + bool" where
  "check_file_exists requests_head url =
     (case requests_head url of
        Inr r \<Rightarrow> Inr (status_code r = 200)
      | Inl e \<Rightarrow> if is_Exception e then Inr False else Inl e)"

section \<open>The load step\<close>

record 'v dataframe =
  columns :: "string list"
  rows :: "'v list list"

datatype write_disposition = WRITE_TRUNCATE | WRITE_APPEND | WRITE_EMPTY

datatype load_error = FileNotFoundError | ClientError | JobError | JobTimeoutError

definition read_parquet :: "(string \<rightharpoonup> 'v dataframe) \<Rightarrow> string \<Rightarrow> load_error + 'v dataframe" where
  "read_parquet fs path = (case fs path of None \<Rightarrow> Inl FileNotFoundError | Some df \<Rightarrow> Inr df)"

text \<open>
  What the warehouse service does with one submission is not decided by the program: the
  client may fail to be created, and the job may complete, fail, or time out. It is a
  parameter of the step.
\<close>

datatype job_outcome = Completed | ClientFailure | JobFailure | JobTimeout

text \<open>
  Modelled from the spec: the warehouse client (\<open>bigquery.Client\<close>, its
  \<open>load_table_from_dataframe\<close> and the job's \<open>result()\<close>) is an external service and
  not part of the sources. The warehouse is a map from table names to tables. Creating the
  client raises when the service refuses it. A job that fails or times out is a hard
  failure of the step: \<open>result()\<close> raises. A completed load with \<open>WRITE_TRUNCATE\<close> is
  the specification's full-table-replace write: any prior contents of the table are
  discarded and the table becomes the submitted one. A completed \<open>WRITE_APPEND\<close> adds
  the rows to a table of the same columns, and \<open>WRITE_EMPTY\<close> writes only to an absent
  or empty table.
\<close>

definition bigquery_Client :: "job_outcome \<Rightarrow> load_error + unit" where
  "bigquery_Client outcome = (if outcome = ClientFailure then Inl ClientError else Inr ())"

definition load_table_from_dataframe ::
    "job_outcome \<Rightarrow> (string \<rightharpoonup> 'v dataframe) \<Rightarrow> 'v dataframe \<Rightarrow> string \<Rightarrow>
     write_disposition \<Rightarrow> load_error + (string \<rightharpoonup> 'v dataframe)" where
  "load_table_from_dataframe outcome wh df table_id disposition =
     (case outcome of
        ClientFailure \<Rightarrow> Inl ClientError
      | JobFailure \<Rightarrow> Inl JobError
      | JobTimeout \<Rightarrow> Inl JobTimeoutError
      | Completed \<Rightarrow>
          (case disposition of
             WRITE_TRUNCATE \<Rightarrow> Inr (wh(table_id \<mapsto> df))
           | WRITE_APPEND \<Rightarrow>
               (case wh table_id of
                  None \<Rightarrow> Inr (wh(table_id \<mapsto> df))
                | Some t \<Rightarrow>
                    if columns t = columns df
                    then Inr (wh(table_id \<mapsto> t\<lparr>rows := rows t @ rows df\<rparr>))
                    else Inl JobError)
           | WRITE_EMPTY \<Rightarrow>
               (case wh table_id of
                  None \<Rightarrow> Inr (wh(table_id \<mapsto> df))
                | Some t \<Rightarrow>
                    if rows t = [] then Inr (wh(table_id \<mapsto> df)) else Inl JobError)))"

text \<open>
  Lines 83 to 104. The staging directory is a map from paths to the tables stored there;
  reading a missing file raises. The column labels are replaced by the sanitized ones, the
  client is created (line 96, which raises when the service refuses it), the table is
  submitted with \<open>WRITE_TRUNCATE\<close>, and the step waits for the job, whose failure or
  timeout it passes on. The printed list of renames is output for the operator only and is
  left out. \<open>loaded_table df\<close> is the table the step submits for the file's table
  \<open>df\<close>.
\<close>

definition loaded_table :: "'v dataframe \<Rightarrow> 'v dataframe" where
  "loaded_table df = df\<lparr>columns := sanitize_columns (columns df)\<rparr>"

definition load_parquet_to_bigquery ::
    "(string \<rightharpoonup> 'v dataframe) \<Rightarrow> job_outcome \<Rightarrow> (string \<rightharpoonup> 'v dataframe) \<Rightarrow>
     string \<Rightarrow> string \<Rightarrow> load_error + (string \<rightharpoonup> 'v dataframe)" where
  "load_parquet_to_bigquery fs outcome wh parquet_path table_id =
     (case read_parquet fs parquet_path of
        Inl e \<Rightarrow> Inl e
      | Inr df \<Rightarrow>
          (let df = df\<lparr>columns := sanitize_columns (columns df)\<rparr>
           in case bigquery_Client outcome of
                Inl e \<Rightarrow> Inl e
              | Inr client \<Rightarrow>
                  load_table_from_dataframe outcome wh df table_id WRITE_TRUNCATE))"

section \<open>Facts about the uniqueness loop and the pass over the labels\<close>

lemma while_used_fresh: "while_used used base i s |\<notin>| used"
proof (induction used base i s rule: while_used.induct)
  case (1 used base i s)
  then show ?case by (simp add: while_used.simps[of used base i s])
qed

lemma while_used_unused: "s |\<notin>| used \<Longrightarrow> while_used used base i s = s"
  by (simp add: while_used.simps[of used base i s])

lemma while_used_least:
  "s |\<in>| used \<Longrightarrow>
   \<exists>k>i. while_used used base i s = suffixed base k \<and> suffixed base k |\<notin>| used \<and>
          (\<forall>j. i < j \<and> j < k \<longrightarrow> suffixed base j |\<in>| used)"
proof (induction used base i s rule: while_used.induct)
  case (1 used base i s)
  show ?case
  proof (cases "suffixed base (i + 1) |\<in>| used")
    case True
    from 1 True obtain k where k: "k > i + 1"
      "while_used used base (i + 1) (suffixed base (i + 1)) = suffixed base k"
      "suffixed base k |\<notin>| used"
      "\<forall>j. i + 1 < j \<and> j < k \<longrightarrow> suffixed base j |\<in>| used"
      by blast
    have "while_used used base i s = suffixed base k"
      using 1(2) k(2) by (simp add: while_used.simps[of used base i s])
    moreover have "\<forall>j. i < j \<and> j < k \<longrightarrow> suffixed base j |\<in>| used"
    proof (intro allI impI)
      fix j assume "i < j \<and> j < k"
      then have "j = i + 1 \<or> (i + 1 < j \<and> j < k)" by arith
      then show "suffixed base j |\<in>| used" using True k(4) by blast
    qed
    moreover have "i < k" using k(1) by simp
    ultimately show ?thesis using k(3) by blast
  next
    case False
    have "while_used used base i s = suffixed base (i + 1)"
      using 1(2) False
      by (simp add: while_used.simps[of used base i s] while_used_unused)
    moreover have "\<forall>j. i < j \<and> j < i + 1 \<longrightarrow> suffixed base j |\<in>| used" by auto
    moreover have "i < i + 1" by simp
    ultimately show ?thesis using False by blast
  qed
qed

lemma foldl_sanitize_step_used:
  "snd st = fset_of_list (fst st) \<Longrightarrow>
   snd (foldl sanitize_step st cols) = fset_of_list (fst (foldl sanitize_step st cols))"
proof (induction cols arbitrary: st)
  case Nil
  then show ?case by simp
next
  case (Cons c cols)
  have "snd (sanitize_step st c) = fset_of_list (fst (sanitize_step st c))"
    using Cons.prems by (cases st) (auto simp: sanitize_step_def Let_def)
  then show ?case using Cons.IH by simp
qed

lemma sanitize_columns_Nil: "sanitize_columns [] = []"
  by (simp add: sanitize_columns_def)

lemma sanitize_columns_snoc:
  "sanitize_columns (cols @ [c]) =
     sanitize_columns cols @
       [while_used (fset_of_list (sanitize_columns cols)) (candidate c) 1 (candidate c)]"
proof -
  let ?st = "foldl sanitize_step ([], {||}) cols"
  have "snd ?st = fset_of_list (fst ?st)"
    by (rule foldl_sanitize_step_used) simp
  then show ?thesis
    by (cases ?st) (simp add: sanitize_columns_def sanitize_step_def Let_def)
qed

lemma length_sanitize_columns: "length (sanitize_columns cols) = length cols"
  by (induction cols rule: rev_induct) (simp_all add: sanitize_columns_Nil sanitize_columns_snoc)

lemma sanitize_columns_append:
  "\<exists>ys. sanitize_columns (xs @ zs) = sanitize_columns xs @ ys"
proof (induction zs rule: rev_induct)
  case Nil
  then show ?case by simp
next
  case (snoc z zs)
  then obtain ys where "sanitize_columns (xs @ zs) = sanitize_columns xs @ ys" by blast
  then show ?case
    using sanitize_columns_snoc[of "xs @ zs" z] by simp
qed

lemma take_sanitize_columns:
  "take k (sanitize_columns cols) = sanitize_columns (take k cols)"
proof -
  obtain ys where "sanitize_columns (take k cols @ drop k cols) = sanitize_columns (take k cols) @ ys"
    using sanitize_columns_append by blast
  then have eq: "sanitize_columns cols = sanitize_columns (take k cols) @ ys" by simp
  show ?thesis
  proof (cases "k \<le> length cols")
    case True
    then have "length (sanitize_columns (take k cols)) = k"
      by (simp add: length_sanitize_columns)
    then show ?thesis using eq by simp
  next
    case False
    then show ?thesis by (simp add: length_sanitize_columns)
  qed
qed

lemma nth_sanitize_columns:
  assumes "k < length cols"
  shows "sanitize_columns cols ! k =
         while_used (fset_of_list (take k (sanitize_columns cols)))
           (candidate (cols ! k)) 1 (candidate (cols ! k))"
proof -
  have "take (Suc k) cols = take k cols @ [cols ! k]"
    using assms by (simp add: take_Suc_conv_app_nth)
  then have "sanitize_columns (take (Suc k) cols) =
      sanitize_columns (take k cols) @
        [while_used (fset_of_list (sanitize_columns (take k cols)))
           (candidate (cols ! k)) 1 (candidate (cols ! k))]"
    by (simp add: sanitize_columns_snoc)
  moreover have "length (sanitize_columns (take k cols)) = k"
    using assms by (simp add: length_sanitize_columns)
  ultimately have "sanitize_columns (take (Suc k) cols) ! k =
      while_used (fset_of_list (sanitize_columns (take k cols)))
           (candidate (cols ! k)) 1 (candidate (cols ! k))"
    by (simp add: nth_append)
  moreover have "sanitize_columns (take (Suc k) cols) ! k = sanitize_columns cols ! k"
    using assms by (simp add: take_sanitize_columns[symmetric] length_sanitize_columns)
  ultimately show ?thesis by (simp add: take_sanitize_columns)
qed

lemma earlier_same_candidate_used:
  assumes "j < k" "k < length cols" "candidate (cols ! j) = c"
  shows "c \<in> set (take k (sanitize_columns cols))"
proof -
  let ?out = "sanitize_columns cols"
  have j: "j < length cols" using assms by simp
  have lo: "length ?out = length cols" by (rule length_sanitize_columns)
  have sub: "set (take j ?out) \<subseteq> set (take k ?out)"
    using assms(1) by (simp add: set_take_subset_set_take)
  have mem: "?out ! j \<in> set (take k ?out)"
    using assms(1,2) lo by (auto simp: in_set_conv_nth intro!: exI[of _ j])
  show ?thesis
  proof (cases "c |\<in>| fset_of_list (take j ?out)")
    case True
    then show ?thesis using sub by (auto simp: fset_of_list.rep_eq)
  next
    case False
    then have "?out ! j = c"
      using nth_sanitize_columns[OF j] assms(3) by (simp add: while_used_unused)
    then show ?thesis using mem by simp
  qed
qed

lemma list_all_re_sub_plus:
  "list_all P repl \<Longrightarrow> list_all (\<lambda>c. X c \<or> P c) s \<Longrightarrow> list_all P (re_sub_plus X repl s)"
proof (induction X repl s rule: re_sub_plus.induct)
  case (1 X repl)
  then show ?case by simp
next
  case (2 X repl c cs)
  have "list_all (\<lambda>c. X c \<or> P c) (dropWhile X cs)"
    using 2(4) by (auto simp: list_all_iff dest: set_dropWhileD)
  then show ?case using 2 by (auto simp: list_all_iff)
qed

lemma list_all_strip_where: "list_all P s \<Longrightarrow> list_all P (strip_where Q s)"
  by (auto simp: strip_where_def list_all_iff dest!: set_dropWhileD)

lemma in_class_digit_char: "d < 10 \<Longrightarrow> in_class (digit_char d)"
  by (simp add: in_class_def digit_char_def)

lemma in_class_str_nat: "list_all in_class (str_nat n)"
proof (induction n rule: str_nat.induct)
  case (1 n)
  show ?case
  proof (cases "n < 10")
    case True
    then show ?thesis by (simp add: in_class_digit_char)
  next
    case False
    then have "list_all in_class (str_nat (n div 10))" using 1 by simp
    moreover have "in_class (digit_char (n mod 10))" by (simp add: in_class_digit_char)
    ultimately show ?thesis using False
      by (subst str_nat.simps) (simp del: str_nat.simps)
  qed
qed

lemma valid_suffixed: "valid_identifier b \<Longrightarrow> valid_identifier (suffixed b n)"
  using in_class_str_nat[of n]
  by (cases b) (simp_all add: valid_identifier_def suffixed_def in_class_def del: str_nat.simps)

lemma ascii_digit_py_isdigit: "ascii_digit c \<Longrightarrow> py_isdigit c"
  by (simp add: ascii_digit_def py_isdigit_def Let_def)

lemma list_all_in_class_cleaned:
  "list_all in_class
     (strip_underscore (re_sub_plus is_underscore ''_''
        (re_sub_plus not_in_class ''_'' s)))"
proof -
  have u: "list_all in_class ''_''" by (simp add: in_class_def)
  have "list_all in_class (re_sub_plus not_in_class ''_'' s)"
    using u by (rule list_all_re_sub_plus) (simp add: list_all_iff not_in_class_def)
  then have "list_all (\<lambda>c. is_underscore c \<or> in_class c) (re_sub_plus not_in_class ''_'' s)"
    by (simp add: list_all_iff)
  with u have "list_all in_class (re_sub_plus is_underscore ''_'' (re_sub_plus not_in_class ''_'' s))"
    by (rule list_all_re_sub_plus)
  then show ?thesis unfolding strip_underscore_def by (rule list_all_strip_where)
qed

lemma valid_candidate: "valid_identifier (candidate c)"
proof -
  define s where "s = strip_underscore (re_sub_plus is_underscore ''_''
        (re_sub_plus not_in_class ''_'' (py_lower (py_strip c))))"
  have cls: "list_all in_class s" unfolding s_def by (rule list_all_in_class_cleaned)
  have cand: "candidate c =
      (if (case s of [] \<Rightarrow> True | x # _ \<Rightarrow> py_isdigit x) then ''c_'' @ s else s)"
    by (simp add: candidate_def s_def Let_def)
  show ?thesis
  proof (cases "case s of [] \<Rightarrow> True | x # _ \<Rightarrow> py_isdigit x")
    case True
    then have "candidate c = ''c_'' @ s" using cand by simp
    then show ?thesis using cls
      by (simp add: valid_identifier_def ascii_digit_def in_class_def)
  next
    case False
    then obtain x xs where s: "s = x # xs" and "\<not> py_isdigit x"
      by (cases s) auto
    then have "\<not> ascii_digit x" using ascii_digit_py_isdigit by blast
    moreover have "candidate c = s" using cand False by simp
    ultimately show ?thesis using cls s by (simp add: valid_identifier_def)
  qed
qed

lemma valid_while_used:
  assumes "valid_identifier base" "valid_identifier s"
  shows "valid_identifier (while_used used base i s)"
proof (cases "s |\<in>| used")
  case True
  from while_used_least[OF this, of i base]
  obtain k where "while_used used base i s = suffixed base k" by blast
  then show ?thesis using assms(1) by (simp add: valid_suffixed)
next
  case False
  then show ?thesis using assms(2) by (simp add: while_used_unused)
qed

text \<open>The source's candidate and the specification's agree.\<close>

lemma list_member_nat: "(c \<in> set s) = ((of_char c :: nat) \<in> set (map of_char s))"
  by (auto simp: inj_image_mem_iff[OF inj_of_char])

lemma in_class_spec_allowed: "in_class c = spec_allowed c"
proof -
  have "spec_allowed c =
      ((of_char c :: nat) \<in> set (map of_char ''abcdefghijklmnopqrstuvwxyz0123456789_''))"
    unfolding spec_allowed_def by (rule list_member_nat)
  also have "\<dots> = ((of_char c :: nat) \<in> {97..122} \<union> {48..57} \<union> {95})"
    by (simp add: atLeastAtMost_def atLeast_def atMost_def) arith
  also have "\<dots> = in_class c"
    unfolding in_class_def Let_def by auto
  finally show ?thesis by simp
qed


lemma spec_digit_ascii_digit: "spec_digit c = ascii_digit c"
proof -
  have "spec_digit c = ((of_char c :: nat) \<in> set (map of_char ''0123456789''))"
    unfolding spec_digit_def by (rule list_member_nat)
  also have "\<dots> = ((of_char c :: nat) \<in> {48..57})"
    by (simp add: atLeastAtMost_def atLeast_def atMost_def) arith
  also have "\<dots> = ascii_digit c"
    unfolding ascii_digit_def Let_def by auto
  finally show ?thesis .
qed

lemma maximal_runs_Cons:
  "maximal_runs X (c # cs) =
     (c # takeWhile (\<lambda>d. X d = X c) cs) # maximal_runs X (dropWhile (\<lambda>d. X d = X c) cs)"
proof (induction cs arbitrary: c)
  case Nil
  then show ?case by simp
next
  case (Cons d ds)
  show ?case
  proof (cases "X c = X d")
    case True
    then show ?thesis using Cons[of d] by simp
  next
    case False
    then show ?thesis using Cons[of d] by auto
  qed
qed

lemma replace_runs_Nil: "replace_runs X [] = []"
  by (simp add: replace_runs_def)

lemma replace_runs_in:
  "X c \<Longrightarrow> replace_runs X (c # cs) = ''_'' @ replace_runs X (dropWhile X cs)"
  by (simp add: replace_runs_def maximal_runs_Cons del: maximal_runs.simps)

lemma replace_runs_out:
  "\<not> X c \<Longrightarrow> replace_runs X (c # cs) =
     c # takeWhile (\<lambda>d. \<not> X d) cs @ replace_runs X (dropWhile (\<lambda>d. \<not> X d) cs)"
  by (simp add: replace_runs_def maximal_runs_Cons del: maximal_runs.simps)

lemma replace_runs_skip:
  "replace_runs X cs =
     takeWhile (\<lambda>d. \<not> X d) cs @ replace_runs X (dropWhile (\<lambda>d. \<not> X d) cs)"
proof (cases cs)
  case Nil
  then show ?thesis by simp
next
  case (Cons d ds)
  then show ?thesis by (cases "X d") (simp_all add: replace_runs_out)
qed

lemma replace_runs_re_sub_plus: "replace_runs X s = re_sub_plus X ''_'' s"
proof (induction X "''_''" s rule: re_sub_plus.induct)
  case (1 X)
  then show ?case by (simp add: replace_runs_Nil)
next
  case (2 X c cs)
  show ?case
  proof (cases "X c")
    case True
    then show ?thesis using 2 by (simp add: replace_runs_in)
  next
    case False
    then have "replace_runs X (c # cs) = c # replace_runs X cs"
      using replace_runs_skip[of X cs] by (simp add: replace_runs_out)
    then show ?thesis using False 2 by simp
  qed
qed

lemma dropWhile_rev_keeps_head:
  "\<not> P y \<Longrightarrow> rev (dropWhile P (rev (y # ys))) = y # rev (dropWhile P (rev ys))"
  by (simp add: dropWhile_append3)

lemma spec_trim_strip_where: "spec_trim P s = strip_where P s"
proof (cases "dropWhile P s")
  case Nil
  then have all: "\<forall>x\<in>set s. P x" by simp
  then have d: "dropWhile P (rev s) = []" by simp
  show ?thesis unfolding spec_trim_def strip_where_def d Nil by simp
next
  case (Cons y ys)
  then have ny: "\<not> P y" by (metis hd_dropWhile list.discI list.sel(1))
  have s: "s = takeWhile P s @ y # ys" using Cons by (metis takeWhile_dropWhile_id)
  have y_in: "y \<in> set (rev (y # ys))" by simp
  have "dropWhile P (rev s) = dropWhile P (rev (y # ys) @ rev (takeWhile P s))"
    by (subst s) simp
  also have "\<dots> = dropWhile P (rev (y # ys)) @ rev (takeWhile P s)"
    using ny y_in by (intro dropWhile_append1[of y]) auto
  finally have "rev (dropWhile P (rev s)) = takeWhile P s @ rev (dropWhile P (rev (y # ys)))"
    by simp
  moreover have "\<forall>x\<in>set (takeWhile P s). P x" by (auto dest: set_takeWhileD)
  ultimately have "spec_trim P s = dropWhile P (rev (dropWhile P (rev (y # ys))))"
    by (simp add: spec_trim_def dropWhile_append2)
  moreover have "rev (dropWhile P (rev (y # ys))) = y # rev (dropWhile P (rev ys))"
    using ny by (rule dropWhile_rev_keeps_head)
  ultimately have "spec_trim P s = rev (dropWhile P (rev (y # ys)))"
    using ny by simp
  then show ?thesis using Cons by (simp add: strip_where_def)
qed

lemma spec_candidate_refines: "candidate c = spec_candidate c"
proof -
  define s where "s = strip_underscore (re_sub_plus is_underscore ''_''
        (re_sub_plus not_in_class ''_'' (py_lower (py_strip c))))"
  have cls: "list_all in_class s" unfolding s_def by (rule list_all_in_class_cleaned)
  have nic: "(\<lambda>c. \<not> spec_allowed c) = not_in_class"
    by (rule ext) (simp add: not_in_class_def in_class_spec_allowed)
  have sc: "spec_candidate c = (if s = [] \<or> spec_digit (hd s) then ''c_'' @ s else s)"
    by (simp add: spec_candidate_def Let_def s_def spec_trim_strip_where
        replace_runs_re_sub_plus nic strip_underscore_def py_strip_def)
  have cand: "candidate c =
      (if (case s of [] \<Rightarrow> True | x # _ \<Rightarrow> py_isdigit x) then ''c_'' @ s else s)"
    by (simp add: candidate_def s_def Let_def)
  have "(case s of [] \<Rightarrow> True | x # _ \<Rightarrow> py_isdigit x) = (s = [] \<or> spec_digit (hd s))"
  proof (cases s)
    case Nil
    then show ?thesis by simp
  next
    case (Cons x xs)
    then have "in_class x" using cls by simp
    then have "py_isdigit x = ascii_digit x"
      by (auto simp: in_class_def py_isdigit_def ascii_digit_def Let_def)
    then show ?thesis using Cons by (simp add: spec_digit_ascii_digit)
  qed
  then show ?thesis using sc cand by simp
qed

text \<open>The relation and the function describe the same runs.\<close>

lemma while_used_run_result:
  "while_used_run used base i s r \<Longrightarrow> r = while_used used base i s"
proof (induction rule: while_used_run.induct)
  case (loop_exit s used base i)
  then show ?case by (simp add: while_used_unused)
next
  case (loop_iter s used base i r)
  then show ?case by (simp add: while_used.simps[of used base i s])
qed

lemma while_used_run_total: "while_used_run used base i s (while_used used base i s)"
proof (induction used base i s rule: while_used.induct)
  case (1 used base i s)
  show ?case
  proof (cases "s |\<in>| used")
    case True
    then have "while_used used base i s = while_used used base (i + 1) (suffixed base (i + 1))"
      by (simp add: while_used.simps[of used base i s])
    then show ?thesis using 1[OF True] True by (simp add: loop_iter)
  next
    case False
    then show ?thesis by (simp add: while_used_unused loop_exit)
  qed
qed

lemma for_run_result: "for_run st cols out \<Longrightarrow> out = fst (foldl sanitize_step st cols)"
proof (induction rule: for_run.induct)
  case (for_done new used)
  then show ?case by simp
next
  case (for_iter used c s new cols out)
  then have "s = while_used used (candidate c) 1 (candidate c)"
    by (simp add: while_used_run_result)
  then have "sanitize_step (new, used) c = (new @ [s], finsert s used)"
    by (simp add: sanitize_step_def Let_def)
  then show ?case using for_iter by simp
qed

lemma for_run_total: "for_run st cols (fst (foldl sanitize_step st cols))"
proof (induction cols arbitrary: st)
  case Nil
  then show ?case by (cases st) (simp add: for_done)
next
  case (Cons c cols)
  obtain new used where st: "st = (new, used)" by (cases st)
  let ?s = "while_used used (candidate c) 1 (candidate c)"
  have step: "sanitize_step st c = (new @ [?s], finsert ?s used)"
    by (simp add: st sanitize_step_def Let_def)
  have "for_run (new @ [?s], finsert ?s used) cols
          (fst (foldl sanitize_step (new @ [?s], finsert ?s used) cols))"
    by (rule Cons)
  then have "for_run (new, used) (c # cols)
          (fst (foldl sanitize_step (new @ [?s], finsert ?s used) cols))"
    using while_used_run_total by (rule for_iter[rotated])
  then show ?case using step st by simp
qed

lemma sanitize_run_total: "sanitize_run cols (sanitize_columns cols)"
  by (simp add: sanitize_run_def sanitize_columns_def for_run_total)

text \<open>
  The load step succeeds exactly when the file is there and the service completes the job,
  and then the warehouse holds the submitted table under the given name.
\<close>

lemma load_parquet_to_bigquery_Inr:
  "(load_parquet_to_bigquery fs outcome wh parquet_path table_id = Inr wh') =
     (\<exists>df. fs parquet_path = Some df \<and> outcome = Completed \<and>
           wh' = wh(table_id \<mapsto> loaded_table df))"
  by (cases "fs parquet_path"; cases outcome)
     (auto simp: load_parquet_to_bigquery_def read_parquet_def load_table_from_dataframe_def
        bigquery_Client_def loaded_table_def)

text \<open>With \<open>WRITE_APPEND\<close> a second load of the same table would double its rows.\<close>

lemma append_would_not_be_idempotent:
  "load_table_from_dataframe Completed [''t'' \<mapsto> \<lparr>columns = [''a''], rows = [[1::int]]\<rparr>]
       \<lparr>columns = [''a''], rows = [[1::int]]\<rparr> ''t'' WRITE_APPEND =
     Inr [''t'' \<mapsto> \<lparr>columns = [''a''], rows = [[1], [1]]\<rparr>]"
  by (simp add: load_table_from_dataframe_def)

section \<open>Properties of the column sanitizer\<close>

text \<open>
  C1. For every list of raw labels, the identifiers returned by \<open>_sanitize_columns\<close>
  are pairwise distinct.
\<close>

theorem sanitize_columns_distinct: "distinct (sanitize_columns cols)"
proof (induction cols rule: rev_induct)
  case Nil
  then show ?case by (simp add: sanitize_columns_Nil)
next
  case (snoc c cols)
  have "while_used (fset_of_list (sanitize_columns cols)) (candidate c) 1 (candidate c)
          \<notin> set (sanitize_columns cols)"
    using while_used_fresh[of "fset_of_list (sanitize_columns cols)"]
    by (simp add: fset_of_list.rep_eq)
  then show ?case using snoc by (simp add: sanitize_columns_snoc)
qed

text \<open>
  C2. The output has as many elements as the input, and the element at position \<open>k\<close>
  is the identifier produced for the label at position \<open>k\<close>: the result of the
  uniqueness loop on that label's candidate, run against the names emitted before it.
\<close>

theorem sanitize_columns_length_order:
  "length (sanitize_columns cols) = length cols \<and>
   (\<forall>k<length cols.
      sanitize_columns cols ! k =
        while_used (fset_of_list (take k (sanitize_columns cols)))
          (candidate (cols ! k)) 1 (candidate (cols ! k)))"
  by (simp add: length_sanitize_columns nth_sanitize_columns)

theorem sanitize_columns_length_order_witness:
  "length (sanitize_columns [''Name'', ''name'']) = 2 \<and>
   sanitize_columns [''Name'', ''name''] ! 1 = ''name_2''"
proof -
  let ?cols = "[''Name'', ''name'']"
  have len: "length (sanitize_columns ?cols) = length ?cols"
    using sanitize_columns_length_order[of ?cols] by blast
  have "(1::nat) < length ?cols" by simp
  then have "sanitize_columns ?cols ! 1 =
        while_used (fset_of_list (take 1 (sanitize_columns ?cols)))
          (candidate (?cols ! 1)) 1 (candidate (?cols ! 1))"
    using sanitize_columns_length_order[of ?cols] by blast
  moreover have "while_used (fset_of_list (take 1 (sanitize_columns ?cols)))
          (candidate (?cols ! 1)) 1 (candidate (?cols ! 1)) = ''name_2''"
    by code_simp
  ultimately show ?thesis using len by simp
qed

text \<open>
  C10. The pass goes once from left to right and never revises a name on account of a later
  label: the first \<open>length L\<close> elements of the output for \<open>L @ M\<close> are the output
  for \<open>L\<close>. In the example the suffixed name \<open>a_2\<close> given to the second label is
  kept although the third label has that very candidate; the third label gives way.
\<close>

theorem sanitize_columns_prefix_stable:
  "take (length L) (sanitize_columns (L @ M)) = sanitize_columns L \<and>
   sanitize_columns [''a'', ''a'', ''a_2''] = [''a'', ''a_2'', ''a_2_2'']"
proof
  show "take (length L) (sanitize_columns (L @ M)) = sanitize_columns L"
    by (simp add: take_sanitize_columns)
  show "sanitize_columns [''a'', ''a'', ''a_2''] = [''a'', ''a_2'', ''a_2_2'']"
    by code_simp
qed

text \<open>
  C4, as stated, says that of several labels with the same base the first keeps the
  unsuffixed form. It does not when an earlier label with another base was already given
  that name as its suffixed form: below, the first label with base \<open>a_2\<close> (position 2)
  comes out as \<open>a_2_2\<close>.
\<close>

theorem first_occurrence_suffixed_counterexample:
  "candidate ''a'' = ''a'' \<and> candidate ''a_2'' = ''a_2'' \<and>
   sanitize_columns [''a'', ''a'', ''a_2'', ''a_2''] = [''a'', ''a_2'', ''a_2_2'', ''a_2_3''] \<and>
   sanitize_columns [''a'', ''a'', ''a_2'', ''a_2''] ! 2 \<noteq> candidate ([''a'', ''a'', ''a_2'', ''a_2''] ! 2)"
  by code_simp

text \<open>
  C4, amended. The used-set at position \<open>k\<close> holds the names emitted at the positions
  before \<open>k\<close>. A label whose candidate is not in it keeps the candidate unsuffixed; a
  label whose candidate is in it gets the candidate followed by \<open>_n\<close> for the least
  \<open>n \<ge> 2\<close> whose name is unused; and the candidate of a label that repeats the base
  of an earlier label is always in the used-set, so second and later occurrences are always
  suffixed.
\<close>

theorem uniqueness_resolution:
  assumes "k < length cols"
  shows "(candidate (cols ! k) \<notin> set (take k (sanitize_columns cols)) \<longrightarrow>
            sanitize_columns cols ! k = candidate (cols ! k)) \<and>
         (candidate (cols ! k) \<in> set (take k (sanitize_columns cols)) \<longrightarrow>
            (\<exists>n\<ge>2. sanitize_columns cols ! k = suffixed (candidate (cols ! k)) n \<and>
                   suffixed (candidate (cols ! k)) n \<notin> set (take k (sanitize_columns cols)) \<and>
                   (\<forall>m. 2 \<le> m \<and> m < n \<longrightarrow>
                      suffixed (candidate (cols ! k)) m \<in> set (take k (sanitize_columns cols))))) \<and>
         (\<forall>j<k. candidate (cols ! j) = candidate (cols ! k) \<longrightarrow>
            candidate (cols ! k) \<in> set (take k (sanitize_columns cols)))"
proof (intro conjI impI allI)
  let ?c = "candidate (cols ! k)"
  let ?used = "fset_of_list (take k (sanitize_columns cols))"
  have nth: "sanitize_columns cols ! k = while_used ?used ?c 1 ?c"
    using assms by (rule nth_sanitize_columns)
  {
    assume "?c \<notin> set (take k (sanitize_columns cols))"
    then show "sanitize_columns cols ! k = ?c"
      using nth by (simp add: while_used_unused fset_of_list.rep_eq)
  }
  {
    assume "?c \<in> set (take k (sanitize_columns cols))"
    then have "?c |\<in>| ?used" by (simp add: fset_of_list.rep_eq)
    from while_used_least[OF this, of 1 ?c]
    obtain n where n: "1 < n" "while_used ?used ?c 1 ?c = suffixed ?c n"
      "suffixed ?c n |\<notin>| ?used" "\<forall>j. 1 < j \<and> j < n \<longrightarrow> suffixed ?c j |\<in>| ?used"
      by blast
    have "2 \<le> n" using n(1) by simp
    moreover have "sanitize_columns cols ! k = suffixed ?c n" using nth n(2) by simp
    moreover have "suffixed ?c n \<notin> set (take k (sanitize_columns cols))"
      using n(3) by (simp add: fset_of_list.rep_eq)
    moreover have "\<forall>m. 2 \<le> m \<and> m < n \<longrightarrow> suffixed ?c m \<in> set (take k (sanitize_columns cols))"
      using n(4) by (auto simp: fset_of_list.rep_eq)
    ultimately show "\<exists>n\<ge>2. sanitize_columns cols ! k = suffixed ?c n \<and>
                   suffixed ?c n \<notin> set (take k (sanitize_columns cols)) \<and>
                   (\<forall>m. 2 \<le> m \<and> m < n \<longrightarrow>
                      suffixed ?c m \<in> set (take k (sanitize_columns cols)))"
      by blast
  }
  {
    fix j assume j: "j < k" "candidate (cols ! j) = ?c"
    show "?c \<in> set (take k (sanitize_columns cols))"
      using j(1) assms j(2) by (rule earlier_same_candidate_used)
  }
qed

theorem uniqueness_resolution_witness:
  "(3::nat) < length [''a'', ''a'', ''a_2'', ''a_2''] \<and>
   candidate ([''a'', ''a'', ''a_2'', ''a_2''] ! 3) \<in> set (take 3 (sanitize_columns [''a'', ''a'', ''a_2'', ''a_2''])) \<and>
   (\<exists>n\<ge>2. sanitize_columns [''a'', ''a'', ''a_2'', ''a_2''] ! 3 = suffixed (candidate ([''a'', ''a'', ''a_2'', ''a_2''] ! 3)) n)"
proof -
  let ?cols = "[''a'', ''a'', ''a_2'', ''a_2'']"
  have k: "(3::nat) < length ?cols" by simp
  have m: "candidate (?cols ! 3) \<in> set (take 3 (sanitize_columns ?cols))" by code_simp
  show ?thesis using uniqueness_resolution[OF k] k m by blast
qed

text \<open>
  C3. \<open>_sanitize_columns\<close> is a total function (the uniqueness loop terminates on every
  input, as its definition proves), and every element of its output is a valid normalized
  identifier: non-empty, made of small ASCII letters, digits and underscores only, and not
  starting with a digit. For the one-element input holding the empty label the output is
  \<open>c_\<close>: non-empty and starting with \<open>c_\<close>.
\<close>

theorem sanitize_columns_valid:
  "list_all valid_identifier (sanitize_columns cols) \<and>
   sanitize_columns [''''] = [''c_''] \<and>
   sanitize_columns [''''] ! 0 \<noteq> [] \<and>
   take 2 (sanitize_columns [''''] ! 0) = ''c_''"
proof (intro conjI)
  show "list_all valid_identifier (sanitize_columns cols)"
  proof (induction cols rule: rev_induct)
    case Nil
    then show ?case by (simp add: sanitize_columns_Nil)
  next
    case (snoc c cols)
    then show ?case
      by (simp add: sanitize_columns_snoc valid_while_used valid_candidate)
  qed
  show e: "sanitize_columns [''''] = [''c_'']" by code_simp
  show "sanitize_columns [''''] ! 0 \<noteq> []" by (simp add: e)
  show "take 2 (sanitize_columns [''''] ! 0) = ''c_''" by (simp add: e)
qed

text \<open>
  C6. The four labels \<open>1to1\<close>, \<open>a b\<close>, \<open>A_B\<close>, \<open>a_b\<close> give four pairwise
  distinct identifiers, each matching \<open>^[a-z][a-z0-9_]*$\<close> or starting with \<open>c_\<close>;
  the third and the fourth label have the same base \<open>a_b\<close> and get different names.
\<close>

theorem sanitize_columns_example_four:
  "sanitize_columns [''1to1'', ''a b'', ''A_B'', ''a_b''] = [''c_1to1'', ''a_b'', ''a_b_2'', ''a_b_3''] \<and>
   length (sanitize_columns [''1to1'', ''a b'', ''A_B'', ''a_b'']) = 4 \<and>
   distinct (sanitize_columns [''1to1'', ''a b'', ''A_B'', ''a_b'']) \<and>
   list_all (\<lambda>s. matches_identifier s \<or> starts_with_c s)
     (sanitize_columns [''1to1'', ''a b'', ''A_B'', ''a_b'']) \<and>
   candidate ''A_B'' = ''a_b'' \<and> candidate ''a_b'' = ''a_b'' \<and>
   sanitize_columns [''1to1'', ''a b'', ''A_B'', ''a_b''] ! 2 \<noteq>
     sanitize_columns [''1to1'', ''a b'', ''A_B'', ''a_b''] ! 3"
proof -
  have e: "sanitize_columns [''1to1'', ''a b'', ''A_B'', ''a_b''] =
             [''c_1to1'', ''a_b'', ''a_b_2'', ''a_b_3'']"
    by code_simp
  have m: "list_all (\<lambda>s. matches_identifier s \<or> starts_with_c s)
             [''c_1to1'', ''a_b'', ''a_b_2'', ''a_b_3'']"
    by code_simp
  have c1: "candidate ''A_B'' = ''a_b''" by code_simp
  have c2: "candidate ''a_b'' = ''a_b''" by code_simp
  show ?thesis using m c1 c2 by (simp add: e)
qed

text \<open>
  C5. For every raw label the candidate computed by lines 21 to 25 is the one the
  specification describes: trim whitespace and lowercase, replace every maximal run of
  characters outside \<open>[a-z0-9_]\<close> by one underscore, collapse runs of underscores and
  strip them at both ends, and prepend \<open>c_\<close> exactly when the result is empty or starts
  with a digit. On a one-element list the output is that candidate; the label
  \<open>Gross(in $)\<close> gives \<open>gross_in\<close> and \<open>9lives\<close> gives \<open>c_9lives\<close>.
\<close>

theorem candidate_matches_spec:
  "candidate c = spec_candidate c \<and>
   sanitize_columns [c] = [candidate c] \<and>
   sanitize_columns [''Gross(in $)''] = [''gross_in''] \<and>
   sanitize_columns [''9lives''] ! 0 = ''c_9lives''"
proof (intro conjI)
  show "candidate c = spec_candidate c" by (rule spec_candidate_refines)
  show "sanitize_columns [c] = [candidate c]"
    using sanitize_columns_snoc[of "[]" c]
    by (simp add: sanitize_columns_Nil while_used_unused)
  have "sanitize_columns [''Gross(in $)''] = [''gross_in'']" by code_simp
  then show "sanitize_columns [''Gross(in $)''] = [''gross_in'']" .
  have "sanitize_columns [''9lives''] = [''c_9lives'']" by code_simp
  then show "sanitize_columns [''9lives''] ! 0 = ''c_9lives''" by simp
qed

text \<open>
  C9. \<open>_sanitize_columns\<close> is deterministic: on every list of labels a run returns,
  and any two runs on the same list return the same list. A run depends on its argument
  only; the used-set is created empty in each run.
\<close>

theorem sanitize_columns_deterministic:
  "sanitize_run cols (sanitize_columns cols) \<and>
   (\<forall>out1 out2. sanitize_run cols out1 \<and> sanitize_run cols out2 \<longrightarrow> out1 = out2)"
proof (intro conjI allI impI)
  show "sanitize_run cols (sanitize_columns cols)" by (rule sanitize_run_total)
next
  fix out1 out2
  assume "sanitize_run cols out1 \<and> sanitize_run cols out2"
  then have "out1 = fst (foldl sanitize_step ([], {||}) cols)"
    and "out2 = fst (foldl sanitize_step ([], {||}) cols)"
    unfolding sanitize_run_def by (auto dest: for_run_result)
  then show "out1 = out2" by simp
qed

theorem sanitize_columns_deterministic_witness:
  "sanitize_run [''a'', ''a''] [''a'', ''a_2''] \<and>
   sanitize_run [''a'', ''a''] (sanitize_columns [''a'', ''a'']) \<and>
   sanitize_columns [''a'', ''a''] = [''a'', ''a_2'']"
proof -
  have c: "candidate ''a'' = ''a''" by code_simp
  have s2: "suffixed ''a'' (1 + 1) = ''a_2''" by code_simp
  have w1: "while_used_run {||} ''a'' 1 ''a'' ''a''"
    by (rule loop_exit) simp
  have "while_used_run (finsert ''a'' {||}) ''a'' (1 + 1) (suffixed ''a'' (1 + 1)) ''a_2''"
    unfolding s2 by (rule loop_exit) simp
  then have w2: "while_used_run (finsert ''a'' {||}) ''a'' 1 ''a'' ''a_2''"
    by (rule loop_iter[rotated]) simp
  have "for_run ([], {||}) [''a'', ''a''] (([] @ [''a'']) @ [''a_2''])"
    by (rule for_iter[where s = "''a''"], simp only: c, rule w1,
        rule for_iter[where s = "''a_2''"], simp only: c, rule w2, rule for_done)
  then have r1: "sanitize_run [''a'', ''a''] [''a'', ''a_2'']"
    by (simp add: sanitize_run_def)
  have r2: "sanitize_run [''a'', ''a''] (sanitize_columns [''a'', ''a''])"
    using sanitize_columns_deterministic[of "[''a'', ''a'']"] by blast
  have "[''a'', ''a_2''] = sanitize_columns [''a'', ''a'']"
    using sanitize_columns_deterministic[of "[''a'', ''a'']"] r1 r2 by blast
  then show ?thesis using r1 r2 by simp
qed

section \<open>Properties of the load step and of the availability check\<close>

text \<open>
  C7. A load that succeeds leaves the warehouse table equal to the table of the staging
  file under its sanitized column labels, whatever the warehouse held before: the prior
  contents of that table are discarded. So when the step is run twice in succession on an
  unchanged staging file and both runs succeed, the table has the same contents after the
  second run as after the first, and the second run changes nothing in the warehouse. A
  run succeeds when the file is present and the service completes the job; a failed or
  timed-out job is a failure of the step.
\<close>

theorem load_idempotent:
  "(\<forall>wh1 wh2 o1 o2.
      load_parquet_to_bigquery fs o1 wh parquet_path table_id = Inr wh1 \<and>
      load_parquet_to_bigquery fs o2 wh1 parquet_path table_id = Inr wh2 \<longrightarrow>
        (\<exists>df. fs parquet_path = Some df \<and>
              wh1 table_id = Some (loaded_table df) \<and>
              wh2 table_id = Some (loaded_table df)) \<and>
        wh2 = wh1) \<and>
   (\<forall>df. fs parquet_path = Some df \<longrightarrow>
      load_parquet_to_bigquery fs Completed wh parquet_path table_id =
        Inr (wh(table_id \<mapsto> loaded_table df))) \<and>
   (\<forall>outcome. outcome \<noteq> Completed \<longrightarrow>
      (\<exists>e. load_parquet_to_bigquery fs outcome wh parquet_path table_id = Inl e))"
proof (intro conjI allI impI)
  fix wh1 wh2 o1 o2
  assume runs: "load_parquet_to_bigquery fs o1 wh parquet_path table_id = Inr wh1 \<and>
      load_parquet_to_bigquery fs o2 wh1 parquet_path table_id = Inr wh2"
  then obtain df where df: "fs parquet_path = Some df"
      and wh1: "wh1 = wh(table_id \<mapsto> loaded_table df)"
    by (auto simp: load_parquet_to_bigquery_Inr)
  from runs df have wh2: "wh2 = wh1(table_id \<mapsto> loaded_table df)"
    by (auto simp: load_parquet_to_bigquery_Inr)
  show "wh2 = wh1" using wh1 wh2 by simp
  show "\<exists>df. fs parquet_path = Some df \<and> wh1 table_id = Some (loaded_table df) \<and>
              wh2 table_id = Some (loaded_table df)"
    using df wh1 wh2 by auto
next
  fix df assume "fs parquet_path = Some df"
  then show "load_parquet_to_bigquery fs Completed wh parquet_path table_id =
        Inr (wh(table_id \<mapsto> loaded_table df))"
    by (simp add: load_parquet_to_bigquery_Inr)
next
  fix outcome :: job_outcome assume "outcome \<noteq> Completed"
  then have "\<forall>wh'. load_parquet_to_bigquery fs outcome wh parquet_path table_id \<noteq> Inr wh'"
    by (simp add: load_parquet_to_bigquery_Inr)
  then show "\<exists>e. load_parquet_to_bigquery fs outcome wh parquet_path table_id = Inl e"
    by (cases "load_parquet_to_bigquery fs outcome wh parquet_path table_id") auto
qed

theorem load_idempotent_witness:
  "load_parquet_to_bigquery
       [''f'' \<mapsto> \<lparr>columns = [''Gross(in $)''], rows = [[1::int]]\<rparr>] Completed
       [''t'' \<mapsto> \<lparr>columns = [''old''], rows = [[7], [8]]\<rparr>] ''f'' ''t'' =
     Inr [''t'' \<mapsto> \<lparr>columns = [''gross_in''], rows = [[1]]\<rparr>] \<and>
   load_parquet_to_bigquery
       [''f'' \<mapsto> \<lparr>columns = [''Gross(in $)''], rows = [[1::int]]\<rparr>] Completed
       [''t'' \<mapsto> \<lparr>columns = [''gross_in''], rows = [[1]]\<rparr>] ''f'' ''t'' =
     Inr [''t'' \<mapsto> \<lparr>columns = [''gross_in''], rows = [[1]]\<rparr>] \<and>
   (\<exists>e. load_parquet_to_bigquery
       [''f'' \<mapsto> \<lparr>columns = [''Gross(in $)''], rows = [[1::int]]\<rparr>] JobFailure
       [''t'' \<mapsto> \<lparr>columns = [''old''], rows = [[7], [8]]\<rparr>] ''f'' ''t'' = Inl e) \<and>
   (\<exists>df. [''f'' \<mapsto> \<lparr>columns = [''Gross(in $)''], rows = [[1::int]]\<rparr>] ''f'' = Some df \<and>
         [''t'' \<mapsto> \<lparr>columns = [''gross_in''], rows = [[1::int]]\<rparr>] ''t'' =
           Some (loaded_table df))"
proof -
  let ?fs = "[''f'' \<mapsto> \<lparr>columns = [''Gross(in $)''], rows = [[1::int]]\<rparr>]"
  let ?df = "\<lparr>columns = [''Gross(in $)''], rows = [[1::int]]\<rparr>"
  let ?wh = "[''t'' \<mapsto> \<lparr>columns = [''old''], rows = [[7::int], [8]]\<rparr>]"
  let ?wh1 = "[''t'' \<mapsto> \<lparr>columns = [''gross_in''], rows = [[1::int]]\<rparr>]"
  have e: "sanitize_columns [''Gross(in $)''] = [''gross_in'']" by code_simp
  have t: "loaded_table ?df = \<lparr>columns = [''gross_in''], rows = [[1::int]]\<rparr>"
    by (simp add: loaded_table_def e)
  have f: "?fs ''f'' = Some ?df" by simp
  have r1: "load_parquet_to_bigquery ?fs Completed ?wh ''f'' ''t'' = Inr ?wh1"
    using load_idempotent[of ?fs ?wh "''f''" "''t''"] f by (simp add: t)
  have r2: "load_parquet_to_bigquery ?fs Completed ?wh1 ''f'' ''t'' = Inr ?wh1"
    using load_idempotent[of ?fs ?wh1 "''f''" "''t''"] f by (simp add: t)
  have r3: "\<exists>e. load_parquet_to_bigquery ?fs JobFailure ?wh ''f'' ''t'' = Inl e"
    using load_idempotent[of ?fs ?wh "''f''" "''t''"] by blast
  have r4: "\<exists>df. ?fs ''f'' = Some df \<and> ?wh1 ''t'' = Some (loaded_table df)"
    using load_idempotent[of ?fs ?wh "''f''" "''t''"] r1 r2 by blast
  show ?thesis using r1 r2 r3 r4 by blast
qed

text \<open>
  C8. For every outcome of the probe, a response of any status or an error of the HTTP
  library (transport error, timeout, or any other exception deriving from
  \<open>Exception\<close>), \<open>check_file_exists\<close> returns a boolean and does not raise: true
  exactly for a response of status 200, false otherwise.
\<close>

theorem check_file_exists_never_raises:
  assumes "case requests_head url of Inl e \<Rightarrow> is_Exception e | Inr r \<Rightarrow> True"
  shows "check_file_exists requests_head url =
           Inr (case requests_head url of Inl e \<Rightarrow> False | Inr r \<Rightarrow> status_code r = 200)"
  using assms by (cases "requests_head url") (simp_all add: check_file_exists_def)

theorem check_file_exists_never_raises_witness:
  "check_file_exists (\<lambda>u. Inr \<lparr>status_code = 404\<rparr>) ''u'' = Inr False \<and>
   check_file_exists (\<lambda>u. Inr \<lparr>status_code = 200\<rparr>) ''u'' = Inr True \<and>
   check_file_exists (\<lambda>u. Inl Timeout) ''u'' = Inr False \<and>
   check_file_exists (\<lambda>u. Inl ConnectionError) ''u'' = Inr False"
  using check_file_exists_never_raises[of "\<lambda>u. Inr \<lparr>status_code = 404\<rparr>" "''u''"]
        check_file_exists_never_raises[of "\<lambda>u. Inr \<lparr>status_code = 200\<rparr>" "''u''"]
        check_file_exists_never_raises[of "\<lambda>u. Inl Timeout" "''u''"]
        check_file_exists_never_raises[of "\<lambda>u. Inl ConnectionError" "''u''"]
  by simp

end
